theory Spec2Isabelle
  imports Main
begin

section \<open>Strings\<close>

text \<open>
  A Python \<open>str\<close> is a sequence of Unicode code points, so a string of the program is a
  list of code points. \<open>py\<close> reads a literal: \<open>py ''ab''\<close> is the Python string \<open>"ab"\<close>.
\<close>

type_synonym pystr = "nat list"

definition py :: "string \<Rightarrow> pystr" where
  "py s = map of_char s"

section \<open>Text Normalizer: \<open>normalize_space\<close>\<close>

text \<open>
  \<^verbatim>\<open>
  def normalize_space(s: str) -> str:
      return re.sub(r"[\u00A0\t ]+", " ", s.replace("\r", "\n")).strip()
  \<close>
  Three stages: \<open>replace_cr\<close> is \<open>s.replace("\r", "\n")\<close>; \<open>collapse\<close> is the substitution;
  \<open>strip\<close> is \<open>str.strip()\<close> without argument, which removes the characters of
  \<open>str.isspace\<close> from both ends.

  Both substitutions of the program have the shape \<open>re.sub("[class]+", r, s)\<close> with a one
  character replacement: \<open>+\<close> is greedy and the matches are taken left to right without
  overlap, so every maximal run of characters of the class is rewritten to \<open>r\<close>. This is
  \<open>sub_runs\<close>, with the class given as a predicate.
\<close>

function sub_runs :: "(nat \<Rightarrow> bool) \<Rightarrow> nat \<Rightarrow> pystr \<Rightarrow> pystr" where
  "sub_runs P r [] = []"
| "sub_runs P r (c # cs) =
     (if P c then r # sub_runs P r (dropWhile P cs) else c # sub_runs P r cs)"
  by pat_completeness auto
termination
  by (relation "measure (\<lambda>(P, r, s). length s)")
    (auto simp: length_dropWhile_le less_Suc_eq_le)

definition replace_cr :: "pystr \<Rightarrow> pystr" where
  "replace_cr s = map (\<lambda>c. if c = 13 then 10 else c) s"

text \<open>The class \<open>[\u00A0\t ]\<close>: no-break space, tab, space.\<close>

definition is_blank :: "nat \<Rightarrow> bool" where
  "is_blank c = (c = 160 \<or> c = 9 \<or> c = 32)"

definition collapse :: "pystr \<Rightarrow> pystr" where
  "collapse s = sub_runs is_blank 32 s"

text \<open>
  The code points for which \<open>str.isspace\<close> holds: U+0009..U+000D, U+001C..U+0020, U+0085,
  U+00A0, U+1680, U+2000..U+200A, U+2028, U+2029, U+202F, U+205F, U+3000.
\<close>

definition is_space :: "nat \<Rightarrow> bool" where
  "is_space c =
     ((9 \<le> c \<and> c \<le> 13) \<or> (28 \<le> c \<and> c \<le> 32) \<or> c = 133 \<or> c = 160 \<or> c = 5760 \<or>
      (8192 \<le> c \<and> c \<le> 8202) \<or> c = 8232 \<or> c = 8233 \<or> c = 8239 \<or> c = 8287 \<or>
      c = 12288)"

text \<open>\<open>s.strip(chars)\<close>: drop the characters of the set from the front, then from the back.\<close>

definition strip_chars :: "(nat \<Rightarrow> bool) \<Rightarrow> pystr \<Rightarrow> pystr" where
  "strip_chars P s = rev (dropWhile P (rev (dropWhile P s)))"

definition strip :: "pystr \<Rightarrow> pystr" where
  "strip s = strip_chars is_space s"

definition normalize_space :: "pystr \<Rightarrow> pystr" where
  "normalize_space s = strip (collapse (replace_cr s))"

section \<open>Tag Extractor: \<open>extract_tags\<close>\<close>

text \<open>
  \<^verbatim>\<open>
  def extract_tags(text: str, tag_rules: dict) -> dict:
      text = normalize_space(text)
      out = {}
      for tag, patterns in tag_rules.items():
          for pat in patterns:
              try:
                  m = re.search(pat, text, flags=re.IGNORECASE|re.MULTILINE)
              except re.error as e:
                  logging.warning(f"Bad regex for {tag}: {e}")
                  continue
              if m:
                  val = m.groupdict().get("value", m.group(0))
                  out[tag] = normalize_space(val)
                  break
      return out
  \<close>
  The regular expression engine is Python's library, not code of the program, so it is a
  parameter: a function from the pattern and the text to what
  \<open>re.search(pat, text, flags=re.IGNORECASE|re.MULTILINE)\<close> does. It raises \<open>re.error\<close>
  (\<open>ReError\<close>), returns \<open>None\<close> (\<open>NoMatch\<close>) or returns a match object (\<open>Match\<close>), of which
  the program reads \<open>m.group(0)\<close> and the entry \<open>value\<close> of \<open>m.groupdict()\<close>. That entry
  is missing when the pattern has no group named \<open>value\<close> (\<open>NoGroup\<close>), is \<open>None\<close> when the
  group exists and took no part in the match (\<open>Unset\<close>), and is the captured text otherwise.
  The call can also raise an exception that is no \<open>re.error\<close> (\<open>Raised\<close>): \<open>OverflowError\<close>
  on the pattern \<open>a{4294967296}\<close>, \<open>RecursionError\<close> on deep nesting. The \<open>except\<close> clause
  does not catch it, so it leaves \<open>extract_tags\<close> (\<open>OtherException\<close>).
\<close>

datatype group = NoGroup | Unset | Captured pystr

datatype search_result = ReError | Raised | NoMatch | Match pystr group

type_synonym re_search = "pystr \<Rightarrow> pystr \<Rightarrow> search_result"

datatype error =
  AttributeError | KeyError | FileNotFoundError | InvalidFileException | JSONDecodeError
  | OtherException

text \<open>
  \<open>m.groupdict().get("value", m.group(0))\<close>: the default is used only when the key is
  missing, so the result is \<open>None\<close> for a group that is unset.
\<close>

fun groupdict_get_value :: "pystr \<Rightarrow> group \<Rightarrow> pystr option" where
  "groupdict_get_value g0 NoGroup = Some g0"
| "groupdict_get_value g0 Unset = None"
| "groupdict_get_value g0 (Captured v) = Some v"

text \<open>
  The inner loop over the patterns of one tag. It returns the warnings it logged (the tag
  of each \<open>Bad regex for {tag}\<close>) and either the value to store (\<open>Some\<close>), nothing to store
  (\<open>None\<close>: the loop ran out of patterns), or the exception that leaves the function:
  the one \<open>re.search\<close> raised when it is no \<open>re.error\<close>, or the \<open>AttributeError\<close> that
  \<open>normalize_space(None)\<close> raises at \<open>s.replace\<close>, outside the \<open>try\<close>.
\<close>

fun try_patterns ::
  "re_search \<Rightarrow> pystr \<Rightarrow> pystr \<Rightarrow> pystr list \<Rightarrow> pystr list \<times> (error + pystr option)" where
  "try_patterns re text tag [] = ([], Inr None)"
| "try_patterns re text tag (pat # pats) =
     (case re pat text of
        ReError \<Rightarrow> (let (w, r) = try_patterns re text tag pats in (tag # w, r))
      | Raised \<Rightarrow> ([], Inl OtherException)
      | NoMatch \<Rightarrow> try_patterns re text tag pats
      | Match g0 g \<Rightarrow>
          (case groupdict_get_value g0 g of
             None \<Rightarrow> ([], Inl AttributeError)
           | Some val \<Rightarrow> ([], Inr (Some (normalize_space val)))))"

text \<open>
  The outer loop over \<open>tag_rules.items()\<close>, a dict, so a list of pairs in insertion order
  with one pair per tag. \<open>out\<close> is the dict being filled.
\<close>

fun tags_loop ::
  "re_search \<Rightarrow> pystr \<Rightarrow> (pystr \<times> pystr list) list \<Rightarrow> (pystr \<rightharpoonup> pystr) \<Rightarrow>
     pystr list \<times> (error + (pystr \<rightharpoonup> pystr))" where
  "tags_loop re text [] out = ([], Inr out)"
| "tags_loop re text ((tag, patterns) # rest) out =
     (case try_patterns re text tag patterns of
        (w, Inl e) \<Rightarrow> (w, Inl e)
      | (w, Inr None) \<Rightarrow> (let (w', r) = tags_loop re text rest out in (w @ w', r))
      | (w, Inr (Some v)) \<Rightarrow>
          (let (w', r) = tags_loop re text rest (out(tag \<mapsto> v)) in (w @ w', r)))"

definition extract_tags ::
  "re_search \<Rightarrow> pystr \<Rightarrow> (pystr \<times> pystr list) list \<Rightarrow>
     pystr list \<times> (error + (pystr \<rightharpoonup> pystr))" where
  "extract_tags re text tag_rules = tags_loop re (normalize_space text) tag_rules Map.empty"

section \<open>Schema Mapper: \<open>build_row\<close>\<close>

text \<open>
  \<^verbatim>\<open>
  key = re.sub(r"[^A-Za-z0-9]+", "_", col).lower().strip("_")
  \<close>
  After the substitution the string holds ASCII letters, digits and underscores only, so
  \<open>lower\<close> is \<open>str.lower\<close> on ASCII.
\<close>

definition is_alnum :: "nat \<Rightarrow> bool" where
  "is_alnum c = ((65 \<le> c \<and> c \<le> 90) \<or> (97 \<le> c \<and> c \<le> 122) \<or> (48 \<le> c \<and> c \<le> 57))"

definition lower :: "pystr \<Rightarrow> pystr" where
  "lower s = map (\<lambda>c. if 65 \<le> c \<and> c \<le> 90 then c + 32 else c) s"

definition column_key :: "pystr \<Rightarrow> pystr" where
  "column_key col = strip_chars (\<lambda>c. c = 95) (lower (sub_runs (\<lambda>c. \<not> is_alnum c) 95 col))"

definition aliases :: "(pystr \<times> pystr list) list" where
  "aliases =
     [(py ''project_name'', [py ''project'', py ''tender_name'', py ''name_of_work'']),
      (py ''project_capacity_mw'', [py ''capacity_mw'', py ''capacity'']),
      (py ''storage_capacity_mwh'', [py ''bess_mwh'', py ''storage_mwh'']),
      (py ''bid_submission_deadline'', [py ''submission_deadline'', py ''bid_due_date'']),
      (py ''emd_amount_rs'', [py ''emd'', py ''earnest_money'']),
      (py ''pbg_percent_or_amount'', [py ''pbg'', py ''performance_bg'']),
      (py ''completion_time_months'', [py ''completion_time'', py ''time_for_completion'']),
      (py ''price_cap_rs_per_kwh'', [py ''tariff_cap'', py ''ceiling_tariff'']),
      (py ''interconnection_voltage_kv'', [py ''grid_voltage_kv'', py ''voltage_kv''])]"

text \<open>
  \<^verbatim>\<open>
  filled = ""
  for tag, aka in aliases:
      if key in aka and tag in tag_values:
          filled = tag_values[tag]
          break
  \<close>
\<close>

fun alias_loop :: "(pystr \<times> pystr list) list \<Rightarrow> pystr \<Rightarrow> (pystr \<rightharpoonup> pystr) \<Rightarrow> pystr" where
  "alias_loop [] key tag_values = []"
| "alias_loop ((tag, aka) # rest) key tag_values =
     (if key \<in> set aka \<and> tag_values tag \<noteq> None then the (tag_values tag)
      else alias_loop rest key tag_values)"

fun build_row :: "pystr list \<Rightarrow> (pystr \<rightharpoonup> pystr) \<Rightarrow> pystr list" where
  "build_row [] tag_values = []"
| "build_row (col # columns) tag_values =
     (let key = column_key col
      in (case tag_values key of
            Some v \<Rightarrow> v
          | None \<Rightarrow> alias_loop aliases key tag_values) # build_row columns tag_values)"

section \<open>Schema source: \<open>load_columns\<close>\<close>

text \<open>
  \<^verbatim>\<open>
  def load_columns(columns_path: Path) -> dict:
      meta = json.loads(Path(columns_path).read_text(encoding="utf-8"))
      columns = meta.get("columns", [])
      sheet = meta.get("detected_master_sheet", "Master")
      return sheet, columns
  \<close>
  \<open>json\<close> is the type of the values \<open>json.loads\<close> returns: \<open>None\<close>, a bool, an int, a float
  (kept as its literal), a string, a list, or a dict (its items, one per key). Reading the
  file and parsing it are the library's: \<open>load_columns\<close> takes their outcome, the parsed
  value or the exception they raised. Only a dict has the method \<open>get\<close>; on any other
  value the attribute lookup raises \<open>AttributeError\<close>.
\<close>

datatype json =
  JNull | JBool bool | JInt int | JFloat pystr | JStr pystr | JList "json list"
  | JDict "(pystr \<times> json) list"

definition dict_get :: "(pystr \<times> json) list \<Rightarrow> pystr \<Rightarrow> json \<Rightarrow> json" where
  "dict_get items key dflt = (case map_of items key of Some v \<Rightarrow> v | None \<Rightarrow> dflt)"

fun load_columns :: "error + json \<Rightarrow> error + (json \<times> json)" where
  "load_columns (Inl e) = Inl e"
| "load_columns (Inr (JDict items)) =
     (let columns = dict_get items (py ''columns'') (JList []);
          sheet = dict_get items (py ''detected_master_sheet'') (JStr (py ''Master''))
      in Inr (sheet, columns))"
| "load_columns (Inr _) = Inl AttributeError"

section \<open>Tabular sink: \<open>ensure_workbook\<close> and \<open>append_rows\<close>\<close>







section \<open>Pipeline driver: \<open>main\<close>\<close>

text \<open>
  \<^verbatim>\<open>
  ensure_workbook(out_path, template, master_sheet, columns)

  rows_to_write = []
  supported = {".pdf",".docx",".txt",".csv",".xlsx",".xls"}
  for p in sorted(docs_dir.glob("**/*")):
      if not p.is_file():
          continue
      if p.suffix.lower() not in supported:
          continue
      logging.info(f"Parsing {p.name}")
      text = read_any_text(p)
      if not text.strip():
          logging.warning(f"No text extracted from {p.name}")
          continue
      tags = extract_tags(text, tag_rules)
      # Always attach filename + timestamp if those columns exist
      tags.setdefault("source_file", p.name)
      tags.setdefault("ingested_at", datetime.now().isoformat(timespec="seconds"))
      row = build_row(columns, tags)
      rows_to_write.append(row)

  if rows_to_write:
      append_rows(out_path, master_sheet, rows_to_write)
  \<close>
  The paths of the sorted listing are the input, each with what the file system, the
  readers and the clock give for it: \<open>p.is_file()\<close>, \<open>p.suffix.lower()\<close>, \<open>p.name\<close>, the
  text \<open>read_any_text(p)\<close> returns and the time stamp taken when the path is processed (the
  last two are read only for a path that passes the tests before).
\<close>

record entry =
  e_is_file :: bool
  e_suffix :: pystr
  e_name :: pystr
  e_text :: pystr
  e_now :: pystr







section \<open>Auxiliary definitions\<close>

text \<open>
  A string in which the class \<open>P\<close> occurs only as the single character \<open>r\<close>, never twice
  in a row: the shape of every result of \<open>sub_runs P r\<close>.
\<close>

fun runs_single :: "(nat \<Rightarrow> bool) \<Rightarrow> nat \<Rightarrow> pystr \<Rightarrow> bool" where
  "runs_single P r [] = True"
| "runs_single P r (c # cs) =
     (if P c then c = r \<and> (case cs of [] \<Rightarrow> True | d # _ \<Rightarrow> \<not> P d) \<and> runs_single P r cs
      else runs_single P r cs)"

text \<open>
  An instance of the engine for the examples: what
  \<open>re.search(pat, text, flags=re.IGNORECASE|re.MULTILINE)\<close> does on the pairs listed. The
  closing \<open>NoMatch\<close> only makes the function total; the examples use the listed pairs.
\<close>

definition re_examples :: re_search where
  "re_examples pat text =
     (if pat = py ''(?P<value>a)?b'' \<and> text = py ''b'' then Match (py ''b'') Unset
      else if pat = py ''cap (?P<value>[0-9]+)'' \<and> text = py ''cap 100 MW''
        then Match (py ''cap 100'') (Captured (py ''100''))
      else if pat = py ''[0-9]+ MW'' \<and> text = py ''cap 100 MW''
        then Match (py ''100 MW'') NoGroup
      else if pat = py ''name:(?P<value>.*)'' \<and> text = py ''Name: Lakhwar Hydro''
        then Match (py ''Name: Lakhwar Hydro'') (Captured (py '' Lakhwar Hydro''))
      else if pat = py ''('' \<and> text = py ''cap 100 MW'' then ReError
      else if pat = py ''tariff'' \<and> text = py ''cap 100 MW'' then NoMatch
      else if pat = py ''a{4294967296}'' \<and> text = py ''cap 100 MW'' then Raised
      else NoMatch)"












section \<open>Facts about the normalizer\<close>

lemma strip_chars_split: "\<exists>zs. dropWhile P s = strip_chars P s @ zs"
  unfolding strip_chars_def
  by (metis rev_append rev_rev_ident takeWhile_dropWhile_id)

lemma strip_chars_idem: "strip_chars P (strip_chars P s) = strip_chars P s"
proof -
  define a where "a = dropWhile P s"
  define b where "b = rev (dropWhile P (rev a))"
  have ab: "a = b @ rev (takeWhile P (rev a))"
    unfolding b_def by (metis rev_append rev_rev_ident takeWhile_dropWhile_id)
  have front: "dropWhile P b = b"
  proof (cases b)
    case Nil then show ?thesis by simp
  next
    case (Cons x xs)
    then have "a \<noteq> []" using ab by auto
    then have "\<not> P (hd a)" unfolding a_def by (metis hd_dropWhile)
    moreover have "hd a = x" using ab Cons by (metis hd_append2 list.sel(1) list.distinct(1))
    ultimately show ?thesis using Cons by simp
  qed
  have rear: "rev (dropWhile P (rev b)) = b"
    unfolding b_def by simp
  have "strip_chars P s = b" unfolding strip_chars_def a_def b_def by simp
  moreover have "strip_chars P b = b" unfolding strip_chars_def front rear by simp
  ultimately show ?thesis by simp
qed

lemma strip_chars_ends:
  "strip_chars P s \<noteq> [] \<Longrightarrow> \<not> P (hd (strip_chars P s)) \<and> \<not> P (last (strip_chars P s))"
proof -
  assume ne: "strip_chars P s \<noteq> []"
  let ?a = "dropWhile P s"
  have r: "dropWhile P (rev ?a) \<noteq> []" using ne unfolding strip_chars_def by simp
  then have "\<not> P (hd (dropWhile P (rev ?a)))" by (metis hd_dropWhile)
  then have l: "\<not> P (last (strip_chars P s))"
    unfolding strip_chars_def using r by (simp add: last_rev)
  obtain zs where z: "?a = strip_chars P s @ zs" using strip_chars_split by blast
  then have "?a \<noteq> []" using ne by auto
  then have "\<not> P (hd ?a)" by (metis hd_dropWhile)
  moreover have "hd ?a = hd (strip_chars P s)" using z ne by (metis hd_append2)
  ultimately show ?thesis using l by simp
qed

lemma sub_runs_hd: "s \<noteq> [] \<Longrightarrow> P r \<Longrightarrow> P (hd (sub_runs P r s)) = P (hd s)"
  by (cases s) auto

lemma sub_runs_Nil_iff: "sub_runs P r s = [] \<longleftrightarrow> s = []"
  by (cases s) auto

lemma runs_single_sub_runs: "P r \<Longrightarrow> runs_single P r (sub_runs P r s)"
proof (induction P r s rule: sub_runs.induct)
  case (1 P r) show ?case by simp
next
  case (2 P r c cs)
  show ?case
  proof (cases "P c")
    case True
    let ?d = "dropWhile P cs"
    have rest: "runs_single P r (sub_runs P r ?d)" using 2 True by simp
    have "case sub_runs P r ?d of [] \<Rightarrow> True | d # _ \<Rightarrow> \<not> P d"
    proof (cases "?d = []")
      case True then show ?thesis by (simp only: sub_runs.simps list.case)
    next
      case False
      then have "\<not> P (hd ?d)" by (metis hd_dropWhile)
      then have "\<not> P (hd (sub_runs P r ?d))" using False 2(3) by (simp add: sub_runs_hd)
      then show ?thesis by (cases "sub_runs P r ?d") auto
    qed
    then show ?thesis using True rest 2(3) by simp
  next
    case False
    then show ?thesis using 2 by simp
  qed
qed

lemma sub_runs_fixed: "runs_single P r s \<Longrightarrow> sub_runs P r s = s"
proof (induction s)
  case Nil show ?case by simp
next
  case (Cons c cs)
  show ?case
  proof (cases "P c")
    case True
    then have c: "c = r" and nb: "case cs of [] \<Rightarrow> True | d # _ \<Rightarrow> \<not> P d"
      and s: "runs_single P r cs" using Cons.prems by simp_all
    have "dropWhile P cs = cs" using nb by (cases cs) simp_all
    then show ?thesis using True c s Cons.IH by simp
  next
    case False
    then show ?thesis using Cons by simp
  qed
qed

lemma runs_single_appendD1: "runs_single P r (xs @ ys) \<Longrightarrow> runs_single P r xs"
proof (induction xs)
  case Nil show ?case by simp
next
  case (Cons c xs)
  show ?case
  proof (cases "P c")
    case True
    then have c: "c = r" and nb: "case xs @ ys of [] \<Rightarrow> True | d # _ \<Rightarrow> \<not> P d"
      and s: "runs_single P r (xs @ ys)" using Cons.prems by simp_all
    have "case xs of [] \<Rightarrow> True | d # _ \<Rightarrow> \<not> P d" using nb by (cases xs) simp_all
    then show ?thesis using True c s Cons.IH by simp
  next
    case False
    then show ?thesis using Cons by simp
  qed
qed

lemma runs_single_appendD2: "runs_single P r (xs @ ys) \<Longrightarrow> runs_single P r ys"
proof (induction xs)
  case Nil then show ?case by simp
next
  case (Cons c xs)
  then have "runs_single P r (xs @ ys)" by (simp split: if_splits)
  then show ?case by (rule Cons.IH)
qed

lemma runs_single_strip_chars: "runs_single P r s \<Longrightarrow> runs_single P r (strip_chars Q s)"
proof -
  assume "runs_single P r s"
  then have "runs_single P r (takeWhile Q s @ dropWhile Q s)" by simp
  then have d: "runs_single P r (dropWhile Q s)" by (rule runs_single_appendD2)
  obtain zs where "dropWhile Q s = strip_chars Q s @ zs"
    using strip_chars_split by blast
  then show ?thesis using d runs_single_appendD1 by metis
qed

lemma runs_single_member: "runs_single P r s \<Longrightarrow> c \<in> set s \<Longrightarrow> P c \<Longrightarrow> c = r"
  by (induction s) (auto split: if_splits)

lemma runs_single_adjacent:
  "runs_single P r s \<Longrightarrow> Suc i < length s \<Longrightarrow> P (s ! i) \<Longrightarrow> \<not> P (s ! Suc i)"
proof (induction s arbitrary: i)
  case Nil then show ?case by simp
next
  case (Cons c cs)
  show ?case
  proof (cases i)
    case 0
    then have "P c" using Cons.prems by simp
    then have "case cs of [] \<Rightarrow> True | d # _ \<Rightarrow> \<not> P d" using Cons.prems by simp
    then show ?thesis using 0 Cons.prems(2) by (cases cs) simp_all
  next
    case (Suc j)
    have "runs_single P r cs" using Cons.prems(1) by (simp split: if_splits)
    then show ?thesis using Cons.IH [of j] Cons.prems Suc by simp
  qed
qed

lemma set_sub_runs: "set (sub_runs P r s) \<subseteq> insert r (set s)"
proof (induction P r s rule: sub_runs.induct)
  case (1 P r) show ?case by simp
next
  case (2 P r c cs)
  have "set (dropWhile P cs) \<subseteq> set cs" by (meson set_dropWhileD subsetI)
  then show ?case using 2 by (auto split: if_splits)
qed

lemma set_strip_chars: "set (strip_chars P s) \<subseteq> set s"
proof
  fix x assume "x \<in> set (strip_chars P s)"
  then have "x \<in> set (dropWhile P (rev (dropWhile P s)))" by (simp add: strip_chars_def)
  then have "x \<in> set (rev (dropWhile P s))" by (rule set_dropWhileD)
  then have "x \<in> set (dropWhile P s)" by simp
  then show "x \<in> set s" by (rule set_dropWhileD)
qed

lemma replace_cr_no_cr: "13 \<notin> set (replace_cr s)"
  by (auto simp: replace_cr_def)

lemma replace_cr_id: "13 \<notin> set s \<Longrightarrow> replace_cr s = s"
  unfolding replace_cr_def by (induction s) auto

lemma normalize_space_no_cr: "13 \<notin> set (normalize_space s)"
proof
  assume "13 \<in> set (normalize_space s)"
  then have "13 \<in> set (collapse (replace_cr s))"
    unfolding normalize_space_def strip_def using set_strip_chars by blast
  then have "13 \<in> insert 32 (set (replace_cr s))"
    unfolding collapse_def using set_sub_runs by blast
  then show False using replace_cr_no_cr by simp
qed

lemma normalize_space_single: "runs_single is_blank 32 (normalize_space s)"
  unfolding normalize_space_def strip_def collapse_def
  by (rule runs_single_strip_chars) (simp add: runs_single_sub_runs is_blank_def)

lemma normalize_space_idem: "normalize_space (normalize_space s) = normalize_space s"
proof -
  let ?n = "normalize_space s"
  have 1: "replace_cr ?n = ?n" by (simp add: replace_cr_id normalize_space_no_cr)
  have 2: "collapse ?n = ?n"
    unfolding collapse_def by (rule sub_runs_fixed) (rule normalize_space_single)
  have 3: "strip ?n = ?n"
    unfolding normalize_space_def strip_def by (simp add: strip_chars_idem)
  show ?thesis unfolding normalize_space_def [of ?n] 1 2 3 ..
qed

text \<open>
  C5. The Text Normalizer is idempotent: normalizing a normalized string changes nothing,
  for every string. (\<open>normalize_space\<close> replaces carriage returns by newlines, rewrites
  every run of no-break spaces, tabs and spaces to one space, and strips white space at
  both ends.)
\<close>

theorem normalize_space_idempotent:
  "normalize_space (normalize_space s) = normalize_space s"
  by (rule normalize_space_idem)

section \<open>Facts about the tag extractor\<close>

lemma try_patterns_value_normalized:
  "try_patterns re text tag pats = (w, Inr (Some v)) \<Longrightarrow> normalize_space v = v"
proof (induction pats arbitrary: w)
  case Nil then show ?case by simp
next
  case (Cons pat pats)
  show ?case
  proof (cases "re pat text")
    case ReError
    then show ?thesis using Cons by (auto split: prod.splits)
  next
    case Raised
    then show ?thesis using Cons.prems by simp
  next
    case NoMatch
    then show ?thesis using Cons by simp
  next
    case (Match g0 g)
    then show ?thesis using Cons.prems
      by (auto split: option.splits simp: normalize_space_idem)
  qed
qed

lemma try_patterns_first_match:
  "re pat text = Match g0 g \<Longrightarrow>
     try_patterns re text tag (pat # pats) =
       (case groupdict_get_value g0 g of
          None \<Rightarrow> ([], Inl AttributeError)
        | Some val \<Rightarrow> ([], Inr (Some (normalize_space val))))"
  by simp

lemma try_patterns_no_match:
  "\<forall>p \<in> set pats. re p text = NoMatch \<or> re p text = ReError \<Longrightarrow>
     \<exists>w. try_patterns re text tag pats = (w, Inr None)"
proof (induction pats)
  case Nil show ?case by simp
next
  case (Cons pat pats)
  then obtain w where w: "try_patterns re text tag pats = (w, Inr None)" by auto
  show ?case
  proof (cases "re pat text")
    case ReError then show ?thesis using w by simp
  next
    case Raised then show ?thesis using Cons.prems by simp
  next
    case NoMatch then show ?thesis using w by simp
  next
    case (Match g0 g) then show ?thesis using Cons.prems by simp
  qed
qed

lemma try_patterns_no_value:
  "\<forall>p \<in> set pats. \<forall>g0 g. re p text \<noteq> Match g0 g \<Longrightarrow>
     try_patterns re text tag pats = (w, Inr r) \<Longrightarrow> r = None"
proof (induction pats arbitrary: w)
  case Nil then show ?case by simp
next
  case (Cons pat pats)
  show ?case
  proof (cases "re pat text")
    case ReError
    then show ?thesis using Cons by (auto split: prod.splits)
  next
    case Raised then show ?thesis using Cons.prems by simp
  next
    case NoMatch then show ?thesis using Cons by simp
  next
    case (Match g0 g) then show ?thesis using Cons.prems by simp
  qed
qed

lemma tags_loop_step:
  "tags_loop re text ((tag, patterns) # rest) out = (w, Inr out') \<Longrightarrow>
     \<exists>w0 w1 r. try_patterns re text tag patterns = (w0, Inr r) \<and>
       tags_loop re text rest (case r of None \<Rightarrow> out | Some v \<Rightarrow> out(tag \<mapsto> v)) = (w1, Inr out')"
  by (auto split: prod.splits sum.splits option.splits)

lemma tags_loop_values_normalized:
  "tags_loop re text rules out = (w, Inr out') \<Longrightarrow>
     (\<And>t v. out t = Some v \<Longrightarrow> normalize_space v = v) \<Longrightarrow>
     out' t = Some v \<Longrightarrow> normalize_space v = v"
proof (induction rules arbitrary: out w)
  case Nil then show ?case by simp
next
  case (Cons rule rules)
  obtain tag patterns where rule: "rule = (tag, patterns)" by (cases rule)
  from Cons.prems(1) obtain w0 w1 r where
    tp: "try_patterns re text tag patterns = (w0, Inr r)" and
    tl: "tags_loop re text rules (case r of None \<Rightarrow> out | Some v \<Rightarrow> out(tag \<mapsto> v)) = (w1, Inr out')"
    unfolding rule using tags_loop_step by blast
  have "\<And>t v. (case r of None \<Rightarrow> out | Some v \<Rightarrow> out(tag \<mapsto> v)) t = Some v \<Longrightarrow>
      normalize_space v = v"
  proof -
    fix t v assume a: "(case r of None \<Rightarrow> out | Some v \<Rightarrow> out(tag \<mapsto> v)) t = Some v"
    show "normalize_space v = v"
    proof (cases r)
      case None then show ?thesis using a Cons.prems(2) by simp
    next
      case (Some u)
      then have "normalize_space u = u" using tp try_patterns_value_normalized by blast
      then show ?thesis using a Some Cons.prems(2) by (cases "t = tag") auto
    qed
  qed
  then show ?case using Cons.IH [OF tl] Cons.prems(3) by blast
qed

lemma tags_loop_other_tag:
  "tags_loop re text rules out = (w, Inr out') \<Longrightarrow> t \<notin> fst ` set rules \<Longrightarrow> out' t = out t"
proof (induction rules arbitrary: out w)
  case Nil then show ?case by simp
next
  case (Cons rule rules)
  obtain tag patterns where rule: "rule = (tag, patterns)" by (cases rule)
  from Cons.prems(1) obtain w0 w1 r where
    tl: "tags_loop re text rules (case r of None \<Rightarrow> out | Some v \<Rightarrow> out(tag \<mapsto> v)) = (w1, Inr out')"
    unfolding rule using tags_loop_step by blast
  have "t \<noteq> tag" and "t \<notin> fst ` set rules" using Cons.prems(2) rule by auto
  then show ?case using Cons.IH [OF tl] by (cases r) auto
qed

lemma tags_loop_no_match_absent:
  "tags_loop re text rules out = (w, Inr out') \<Longrightarrow> out X = None \<Longrightarrow>
     (\<And>ps w0 r. (X, ps) \<in> set rules \<Longrightarrow> try_patterns re text X ps = (w0, Inr r) \<Longrightarrow>
        r = None) \<Longrightarrow>
     out' X = None"
proof (induction rules arbitrary: out w)
  case Nil then show ?case by simp
next
  case (Cons rule rules)
  obtain tag patterns where rule: "rule = (tag, patterns)" by (cases rule)
  from Cons.prems(1) obtain w0 w1 r where
    tp: "try_patterns re text tag patterns = (w0, Inr r)" and
    tl: "tags_loop re text rules (case r of None \<Rightarrow> out | Some v \<Rightarrow> out(tag \<mapsto> v)) = (w1, Inr out')"
    unfolding rule using tags_loop_step by blast
  have "(case r of None \<Rightarrow> out | Some v \<Rightarrow> out(tag \<mapsto> v)) X = None"
  proof (cases "tag = X")
    case True
    then have "r = None" using Cons.prems(3) [of patterns w0 r] rule tp by simp
    then show ?thesis using Cons.prems(2) by simp
  next
    case False
    then show ?thesis using Cons.prems(2) by (cases r) auto
  qed
  moreover have "\<And>ps w0 r. (X, ps) \<in> set rules \<Longrightarrow>
      try_patterns re text X ps = (w0, Inr r) \<Longrightarrow> r = None"
  proof -
    fix ps w0 r
    assume a: "(X, ps) \<in> set rules" and b: "try_patterns re text X ps = (w0, Inr r)"
    show "r = None" by (rule Cons.prems(3) [of ps w0 r]) (use a b in simp_all)
  qed
  ultimately show ?case using Cons.IH [OF tl] by blast
qed

lemma tags_loop_stored:
  "tags_loop re text rules out = (w, Inr out') \<Longrightarrow> distinct (map fst rules) \<Longrightarrow>
     (tag, ps) \<in> set rules \<Longrightarrow> try_patterns re text tag ps = (w0, Inr (Some v)) \<Longrightarrow>
     out' tag = Some v"
proof (induction rules arbitrary: out w)
  case Nil then show ?case by simp
next
  case (Cons rule rules)
  obtain t patterns where rule: "rule = (t, patterns)" by (cases rule)
  from Cons.prems(1) obtain w2 w1 r where
    tp: "try_patterns re text t patterns = (w2, Inr r)" and
    tl: "tags_loop re text rules (case r of None \<Rightarrow> out | Some v \<Rightarrow> out(t \<mapsto> v)) = (w1, Inr out')"
    unfolding rule using tags_loop_step by blast
  have d: "distinct (map fst rules)" and nt: "t \<notin> fst ` set rules"
    using Cons.prems(2) rule by auto
  show ?case
  proof (cases "(tag, ps) = (t, patterns)")
    case True
    then have "r = Some v" using tp Cons.prems(4) by simp
    moreover have "out' t = (case r of None \<Rightarrow> out | Some v \<Rightarrow> out(t \<mapsto> v)) t"
      using tags_loop_other_tag [OF tl nt] .
    ultimately show ?thesis using True by simp
  next
    case False
    then have "(tag, ps) \<in> set rules" using Cons.prems(3) rule by auto
    then show ?thesis using Cons.IH [OF tl d _ Cons.prems(4)] by simp
  qed
qed

lemma tags_loop_drop_tag:
  "(\<And>ps. (X, ps) \<in> set rules \<Longrightarrow> \<exists>w0. try_patterns re text X ps = (w0, Inr None)) \<Longrightarrow>
     snd (tags_loop re text rules out) =
       snd (tags_loop re text (filter (\<lambda>rule. fst rule \<noteq> X) rules) out)"
proof (induction rules arbitrary: out)
  case Nil show ?case by simp
next
  case (Cons rule rules)
  obtain tag patterns where rule: "rule = (tag, patterns)" by (cases rule)
  have ih: "\<And>out. snd (tags_loop re text rules out) =
       snd (tags_loop re text (filter (\<lambda>rule. fst rule \<noteq> X) rules) out)"
    using Cons.IH Cons.prems by simp
  show ?case
  proof (cases "tag = X")
    case True
    then obtain w0 where "try_patterns re text tag patterns = (w0, Inr None)"
      using Cons.prems [of patterns] rule by auto
    then show ?thesis using True rule ih [of out] by (simp add: case_prod_beta)
  next
    case False
    obtain w0 r where tp: "try_patterns re text tag patterns = (w0, r)"
      by (cases "try_patterns re text tag patterns")
    show ?thesis
    proof (cases r)
      case (Inl e) then show ?thesis using False rule tp by simp
    next
      case (Inr o1)
      then show ?thesis using False rule tp ih
        by (cases o1) (simp_all add: case_prod_beta)
    qed
  qed
qed

lemma tags_loop_no_error:
  "tags_loop re text rules out = (w, Inr out') \<Longrightarrow> (tag, ps) \<in> set rules \<Longrightarrow>
     \<exists>w0 r. try_patterns re text tag ps = (w0, Inr r)"
proof (induction rules arbitrary: out w)
  case Nil then show ?case by simp
next
  case (Cons rule rules)
  obtain t patterns where rule: "rule = (t, patterns)" by (cases rule)
  from Cons.prems(1) obtain w2 w1 r where
    tp: "try_patterns re text t patterns = (w2, Inr r)" and
    tl: "tags_loop re text rules (case r of None \<Rightarrow> out | Some v \<Rightarrow> out(t \<mapsto> v)) = (w1, Inr out')"
    unfolding rule using tags_loop_step by blast
  show ?case
  proof (cases "(tag, ps) = (t, patterns)")
    case True
    then show ?thesis using tp by auto
  next
    case False
    then have "(tag, ps) \<in> set rules" using Cons.prems(2) rule by auto
    then show ?thesis using Cons.IH [OF tl] by simp
  qed
qed

section \<open>Claims about the tag extractor\<close>

lemmas normalize_space_eval =
  py_def normalize_space_def strip_def strip_chars_def replace_cr_def collapse_def
  is_blank_def is_space_def

lemma normalize_space_fixed_shape:
  assumes "normalize_space v = v"
  shows "13 \<notin> set v" and "9 \<notin> set v" and "160 \<notin> set v"
    and "v \<noteq> [] \<longrightarrow> \<not> is_space (hd v) \<and> \<not> is_space (last v)"
    and "\<forall>i. Suc i < length v \<longrightarrow> \<not> (v ! i = 32 \<and> v ! Suc i = 32)"
proof -
  have s: "runs_single is_blank 32 v" using normalize_space_single [of v] assms by simp
  show "13 \<notin> set v" using normalize_space_no_cr [of v] assms by simp
  show "9 \<notin> set v" using runs_single_member [OF s, of 9] by (auto simp: is_blank_def)
  show "160 \<notin> set v" using runs_single_member [OF s, of 160] by (auto simp: is_blank_def)
  have "v = strip_chars is_space (collapse (replace_cr v))"
    using assms by (simp add: normalize_space_def strip_def)
  then show "v \<noteq> [] \<longrightarrow> \<not> is_space (hd v) \<and> \<not> is_space (last v)"
    using strip_chars_ends [of is_space "collapse (replace_cr v)"] by auto
  show "\<forall>i. Suc i < length v \<longrightarrow> \<not> (v ! i = 32 \<and> v ! Suc i = 32)"
    using runs_single_adjacent [OF s] by (auto simp: is_blank_def)
qed

text \<open>
  C3. The Tag Extractor never fails as a whole. The code does fail: a pattern whose group
  \<open>value\<close> takes no part in the match, as \<open>(?P<value>a)?b\<close> on the text \<open>b\<close>, makes
  \<open>groupdict().get("value", ...)\<close> return \<open>None\<close>, and \<open>normalize_space(None)\<close> raises
  \<open>AttributeError\<close> outside the \<open>try\<close>.
\<close>

theorem extract_tags_unset_group_raises:
  "extract_tags re_examples (py ''b'') [(py ''emd'', [py ''(?P<value>a)?b''])]
     = ([], Inl AttributeError)"
proof -
  have n: "normalize_space (py ''b'') = py ''b''" by (simp add: normalize_space_eval)
  have m: "re_examples (py ''(?P<value>a)?b'') (py ''b'') = Match (py ''b'') Unset"
    by code_simp
  show ?thesis by (simp add: extract_tags_def n m)
qed

text \<open>
  C4. First match wins: when the patterns of a tag are \<open>[P1, P2]\<close> and both match the
  normalized text, the value stored for the tag is the one of \<open>P1\<close> (the group \<open>value\<close> if
  the pattern has it, the whole match otherwise, normalized), and \<open>P2\<close> is not tried.
\<close>

theorem first_match_wins:
  assumes "distinct (map fst rules)" and "(tag, [P1, P2]) \<in> set rules"
    and "re P1 (normalize_space T) = Match g1 v1"
    and "re P2 (normalize_space T) = Match g2 v2"
  shows "try_patterns re (normalize_space T) tag [P1, P2]
           = try_patterns re (normalize_space T) tag [P1] \<and>
         (\<forall>w out. extract_tags re T rules = (w, Inr out) \<longrightarrow>
            (\<exists>val. groupdict_get_value g1 v1 = Some val \<and>
               out tag = Some (normalize_space val)))"
proof (intro conjI allI impI)
  show "try_patterns re (normalize_space T) tag [P1, P2]
          = try_patterns re (normalize_space T) tag [P1]"
    using assms(3) by (simp only: try_patterns_first_match)
next
  fix w out assume ex: "extract_tags re T rules = (w, Inr out)"
  have tl: "tags_loop re (normalize_space T) rules Map.empty = (w, Inr out)"
    using ex by (simp add: extract_tags_def)
  have tp: "try_patterns re (normalize_space T) tag [P1, P2] =
      (case groupdict_get_value g1 v1 of
         None \<Rightarrow> ([], Inl AttributeError)
       | Some val \<Rightarrow> ([], Inr (Some (normalize_space val))))"
    using assms(3) by (rule try_patterns_first_match)
  show "\<exists>val. groupdict_get_value g1 v1 = Some val \<and> out tag = Some (normalize_space val)"
  proof (cases "groupdict_get_value g1 v1")
    case None
    then have "try_patterns re (normalize_space T) tag [P1, P2] = ([], Inl AttributeError)"
      using tp by simp
    moreover obtain w0 r where "try_patterns re (normalize_space T) tag [P1, P2] = (w0, Inr r)"
      using tags_loop_no_error [OF tl assms(2)] by blast
    ultimately show ?thesis by simp
  next
    case (Some val)
    then have "try_patterns re (normalize_space T) tag [P1, P2]
        = ([], Inr (Some (normalize_space val)))" using tp by simp
    then have "out tag = Some (normalize_space val)"
      using tags_loop_stored [OF tl assms(1) assms(2)] by blast
    then show ?thesis using Some by simp
  qed
qed

theorem first_match_wins_witness:
  "distinct (map fst [(py ''capacity_mw'', [py ''cap (?P<value>[0-9]+)'', py ''[0-9]+ MW''])]) \<and>
   (py ''capacity_mw'', [py ''cap (?P<value>[0-9]+)'', py ''[0-9]+ MW''])
     \<in> set [(py ''capacity_mw'', [py ''cap (?P<value>[0-9]+)'', py ''[0-9]+ MW''])] \<and>
   re_examples (py ''cap (?P<value>[0-9]+)'') (normalize_space (py '' cap  100 MW ''))
     = Match (py ''cap 100'') (Captured (py ''100'')) \<and>
   re_examples (py ''[0-9]+ MW'') (normalize_space (py '' cap  100 MW ''))
     = Match (py ''100 MW'') NoGroup \<and>
   extract_tags re_examples (py '' cap  100 MW '')
       [(py ''capacity_mw'', [py ''cap (?P<value>[0-9]+)'', py ''[0-9]+ MW''])]
     = ([], Inr [py ''capacity_mw'' \<mapsto> py ''100'']) \<and>
   (\<exists>val. groupdict_get_value (py ''cap 100'') (Captured (py ''100'')) = Some val \<and>
      [py ''capacity_mw'' \<mapsto> py ''100''] (py ''capacity_mw'') = Some (normalize_space val))"
proof -
  let ?P1 = "py ''cap (?P<value>[0-9]+)''" and ?P2 = "py ''[0-9]+ MW''"
  let ?R = "[(py ''capacity_mw'', [?P1, ?P2])]"
  have n: "normalize_space (py '' cap  100 MW '') = py ''cap 100 MW''" by (simp add: normalize_space_eval)
  have nv: "normalize_space (py ''100'') = py ''100''" by (simp add: normalize_space_eval)
  have h1: "distinct (map fst ?R)" by simp
  have h2: "(py ''capacity_mw'', [?P1, ?P2]) \<in> set ?R" by simp
  have m1: "re_examples ?P1 (py ''cap 100 MW'') = Match (py ''cap 100'') (Captured (py ''100''))"
    by code_simp
  have m2: "re_examples ?P2 (py ''cap 100 MW'') = Match (py ''100 MW'') NoGroup"
    by code_simp
  have h3: "re_examples ?P1 (normalize_space (py '' cap  100 MW ''))
      = Match (py ''cap 100'') (Captured (py ''100''))" using m1 n by simp
  have h4: "re_examples ?P2 (normalize_space (py '' cap  100 MW ''))
      = Match (py ''100 MW'') NoGroup" using m2 n by simp
  have h5: "extract_tags re_examples (py '' cap  100 MW '') ?R
      = ([], Inr [py ''capacity_mw'' \<mapsto> py ''100''])"
    by (simp add: extract_tags_def n m1 nv)
  from first_match_wins [where re = re_examples and T = "py '' cap  100 MW ''", OF h1 h2 h3 h4] h5
  have "\<exists>val. groupdict_get_value (py ''cap 100'') (Captured (py ''100'')) = Some val \<and>
      [py ''capacity_mw'' \<mapsto> py ''100''] (py ''capacity_mw'') = Some (normalize_space val)"
    by blast
  then show ?thesis using h1 h2 h3 h4 h5 by blast
qed

text \<open>
  C7. Absence on no-match: a tag none of whose patterns matches the normalized text is
  absent from the mapping returned; no placeholder is stored. The absence is no error:
  unless one of the patterns of the tag makes the library raise an exception other than
  \<open>re.error\<close>, the result is the one of the rules without that tag.
\<close>

theorem absent_on_no_match:
  assumes "\<forall>ps p. (X, ps) \<in> set rules \<longrightarrow> p \<in> set ps \<longrightarrow>
             (\<forall>g0 g. re p (normalize_space T) \<noteq> Match g0 g)"
  shows "(\<forall>w out. extract_tags re T rules = (w, Inr out) \<longrightarrow> out X = None) \<and>
         ((\<forall>ps p. (X, ps) \<in> set rules \<longrightarrow> p \<in> set ps \<longrightarrow>
              re p (normalize_space T) \<noteq> Raised) \<longrightarrow>
          snd (extract_tags re T rules)
            = snd (extract_tags re T (filter (\<lambda>rule. fst rule \<noteq> X) rules)))"
proof (intro conjI allI impI)
  fix w out assume ex: "extract_tags re T rules = (w, Inr out)"
  have tl: "tags_loop re (normalize_space T) rules Map.empty = (w, Inr out)"
    using ex by (simp add: extract_tags_def)
  have "\<And>ps w0 r. (X, ps) \<in> set rules \<Longrightarrow>
      try_patterns re (normalize_space T) X ps = (w0, Inr r) \<Longrightarrow> r = None"
    using assms try_patterns_no_value [of _ re "normalize_space T" X] by blast
  then show "out X = None" using tags_loop_no_match_absent [OF tl] by simp
next
  assume quiet: "\<forall>ps p. (X, ps) \<in> set rules \<longrightarrow> p \<in> set ps \<longrightarrow>
      re p (normalize_space T) \<noteq> Raised"
  have "\<And>ps. (X, ps) \<in> set rules \<Longrightarrow>
      \<exists>w0. try_patterns re (normalize_space T) X ps = (w0, Inr None)"
  proof -
    fix ps assume mem: "(X, ps) \<in> set rules"
    have "\<forall>p \<in> set ps. re p (normalize_space T) = NoMatch \<or> re p (normalize_space T) = ReError"
    proof
      fix p assume "p \<in> set ps"
      then have "\<forall>g0 g. re p (normalize_space T) \<noteq> Match g0 g"
        and "re p (normalize_space T) \<noteq> Raised" using assms quiet mem by blast+
      then show "re p (normalize_space T) = NoMatch \<or> re p (normalize_space T) = ReError"
        by (cases "re p (normalize_space T)") simp_all
    qed
    then show "\<exists>w0. try_patterns re (normalize_space T) X ps = (w0, Inr None)"
      by (rule try_patterns_no_match)
  qed
  then show "snd (extract_tags re T rules)
      = snd (extract_tags re T (filter (\<lambda>rule. fst rule \<noteq> X) rules))"
    unfolding extract_tags_def by (rule tags_loop_drop_tag)
qed

theorem absent_on_no_match_witness:
  "re_examples (py ''('') (normalize_space (py ''cap 100 MW'')) = ReError \<and>
   re_examples (py ''tariff'') (normalize_space (py ''cap 100 MW'')) = NoMatch \<and>
   extract_tags re_examples (py ''cap 100 MW'')
       [(py ''tariff_cap'', [py ''('', py ''tariff'']),
        (py ''capacity_mw'', [py ''cap (?P<value>[0-9]+)''])]
     = ([py ''tariff_cap''], Inr [py ''capacity_mw'' \<mapsto> py ''100'']) \<and>
   [py ''capacity_mw'' \<mapsto> py ''100''] (py ''tariff_cap'') = None \<and>
   snd (extract_tags re_examples (py ''cap 100 MW'')
       [(py ''tariff_cap'', [py ''('', py ''tariff'']),
        (py ''capacity_mw'', [py ''cap (?P<value>[0-9]+)''])])
     = snd (extract_tags re_examples (py ''cap 100 MW'')
         [(py ''capacity_mw'', [py ''cap (?P<value>[0-9]+)''])])"
proof -
  let ?P1 = "py ''cap (?P<value>[0-9]+)''"
  let ?R = "[(py ''tariff_cap'', [py ''('', py ''tariff'']), (py ''capacity_mw'', [?P1])]"
  have n: "normalize_space (py ''cap 100 MW'') = py ''cap 100 MW''" by (simp add: normalize_space_eval)
  have nv: "normalize_space (py ''100'') = py ''100''" by (simp add: normalize_space_eval)
  have ne: "py ''tariff_cap'' \<noteq> py ''capacity_mw''" by code_simp
  have m0: "re_examples (py ''('') (py ''cap 100 MW'') = ReError" by code_simp
  have m1: "re_examples (py ''tariff'') (py ''cap 100 MW'') = NoMatch" by code_simp
  have m2: "re_examples ?P1 (py ''cap 100 MW'') = Match (py ''cap 100'') (Captured (py ''100''))"
    by code_simp
  have h1: "\<forall>ps p. (py ''tariff_cap'', ps) \<in> set ?R \<longrightarrow> p \<in> set ps \<longrightarrow>
      (\<forall>g0 g. re_examples p (normalize_space (py ''cap 100 MW'')) \<noteq> Match g0 g)"
    using ne m0 m1 by (auto simp: n)
  have h2: "extract_tags re_examples (py ''cap 100 MW'') ?R
      = ([py ''tariff_cap''], Inr [py ''capacity_mw'' \<mapsto> py ''100''])"
    by (simp add: extract_tags_def n m0 m1 m2 nv)
  have h3: "\<forall>ps p. (py ''tariff_cap'', ps) \<in> set ?R \<longrightarrow> p \<in> set ps \<longrightarrow>
      re_examples p (normalize_space (py ''cap 100 MW'')) \<noteq> Raised"
    using ne m0 m1 by (auto simp: n)
  have f: "filter (\<lambda>rule. fst rule \<noteq> py ''tariff_cap'') ?R = [(py ''capacity_mw'', [?P1])]"
    using ne by simp
  note inst = absent_on_no_match [where re = re_examples and T = "py ''cap 100 MW''", OF h1]
  from inst h2 have a: "[py ''capacity_mw'' \<mapsto> py ''100''] (py ''tariff_cap'') = None" by blast
  from inst h3 have "snd (extract_tags re_examples (py ''cap 100 MW'') ?R)
      = snd (extract_tags re_examples (py ''cap 100 MW'')
          (filter (\<lambda>rule. fst rule \<noteq> py ''tariff_cap'') ?R))" by blast
  then have b: "snd (extract_tags re_examples (py ''cap 100 MW'') ?R)
      = snd (extract_tags re_examples (py ''cap 100 MW'') [(py ''capacity_mw'', [?P1])])"
    by (simp only: f)
  show ?thesis using a b h2 m0 m1 n by simp
qed

text \<open>
  C9. Every value stored in the mapping that \<open>extract_tags\<close> returns is a fixed point of
  the normalizer, so it holds no carriage return, no tab, no no-break space, no white space
  at either end and no two spaces in a row.
\<close>

theorem extracted_values_normalized:
  assumes "extract_tags re T rules = (w, Inr out)" and "out tag = Some v"
  shows "normalize_space v = v \<and> 13 \<notin> set v \<and> 9 \<notin> set v \<and> 160 \<notin> set v \<and>
         (v \<noteq> [] \<longrightarrow> \<not> is_space (hd v) \<and> \<not> is_space (last v)) \<and>
         (\<forall>i. Suc i < length v \<longrightarrow> \<not> (v ! i = 32 \<and> v ! Suc i = 32))"
proof -
  have tl: "tags_loop re (normalize_space T) rules Map.empty = (w, Inr out)"
    using assms(1) by (simp add: extract_tags_def)
  have "normalize_space v = v"
    using tags_loop_values_normalized [OF tl _ assms(2)] by simp
  then show ?thesis using normalize_space_fixed_shape [of v] by blast
qed

theorem extracted_values_normalized_witness:
  "extract_tags re_examples (py ''Name:  Lakhwar Hydro'')
       [(py ''project_name'', [py ''name:(?P<value>.*)''])]
     = ([], Inr [py ''project_name'' \<mapsto> py ''Lakhwar Hydro'']) \<and>
   [py ''project_name'' \<mapsto> py ''Lakhwar Hydro''] (py ''project_name'')
     = Some (py ''Lakhwar Hydro'') \<and>
   normalize_space (py ''Lakhwar Hydro'') = py ''Lakhwar Hydro'' \<and>
   13 \<notin> set (py ''Lakhwar Hydro'') \<and> 9 \<notin> set (py ''Lakhwar Hydro'') \<and>
   160 \<notin> set (py ''Lakhwar Hydro'')"
proof -
  have n: "normalize_space (py ''Name:  Lakhwar Hydro'') = py ''Name: Lakhwar Hydro''"
    by (simp add: normalize_space_eval)
  have nv: "normalize_space (py '' Lakhwar Hydro'') = py ''Lakhwar Hydro''" by (simp add: normalize_space_eval)
  have m: "re_examples (py ''name:(?P<value>.*)'') (py ''Name: Lakhwar Hydro'')
      = Match (py ''Name: Lakhwar Hydro'') (Captured (py '' Lakhwar Hydro''))" by code_simp
  have h1: "extract_tags re_examples (py ''Name:  Lakhwar Hydro'')
       [(py ''project_name'', [py ''name:(?P<value>.*)''])]
     = ([], Inr [py ''project_name'' \<mapsto> py ''Lakhwar Hydro''])"
    by (simp add: extract_tags_def n m nv)
  have h2: "[py ''project_name'' \<mapsto> py ''Lakhwar Hydro''] (py ''project_name'')
     = Some (py ''Lakhwar Hydro'')" by simp
  from extracted_values_normalized [OF h1 h2] h1 h2 show ?thesis by blast
qed

section \<open>Facts about the schema mapper\<close>

lemmas column_key_eval = py_def column_key_def lower_def is_alnum_def strip_chars_def

lemma build_row_map:
  "build_row columns tag_values =
     map (\<lambda>col. case tag_values (column_key col) of
                  Some v \<Rightarrow> v
                | None \<Rightarrow> alias_loop aliases (column_key col) tag_values) columns"
  by (induction columns) (simp_all add: Let_def)

lemma alias_loop_found:
  "distinct (concat (map snd al)) \<Longrightarrow> (tag, aka) \<in> set al \<Longrightarrow> key \<in> set aka \<Longrightarrow>
     tag_values tag = Some v \<Longrightarrow> alias_loop al key tag_values = v"
proof (induction al)
  case Nil then show ?case by simp
next
  case (Cons entry al)
  obtain t a where entry: "entry = (t, a)" by (cases entry)
  show ?case
  proof (cases "(tag, aka) = (t, a)")
    case True
    then show ?thesis using Cons.prems entry by simp
  next
    case False
    then have mem: "(tag, aka) \<in> set al" using Cons.prems(2) entry by auto
    then have "key \<in> set (concat (map snd al))" using Cons.prems(3) by force
    moreover have "set a \<inter> set (concat (map snd al)) = {}"
      using Cons.prems(1) entry by simp
    ultimately have "key \<notin> set a" by blast
    moreover have "distinct (concat (map snd al))" using Cons.prems(1) by simp
    ultimately show ?thesis using Cons.IH mem Cons.prems(3,4) entry by simp
  qed
qed

lemma alias_loop_not_found:
  "(\<And>tag aka. (tag, aka) \<in> set al \<Longrightarrow> key \<in> set aka \<Longrightarrow> tag_values tag = None) \<Longrightarrow>
     alias_loop al key tag_values = []"
proof (induction al)
  case Nil show ?case by simp
next
  case (Cons entry al)
  obtain t a where entry: "entry = (t, a)" by (cases entry)
  have "key \<in> set a \<Longrightarrow> tag_values t = None" using Cons.prems [of t a] entry by simp
  moreover have "alias_loop al key tag_values = []"
  proof (rule Cons.IH)
    fix tag aka assume "(tag, aka) \<in> set al" and "key \<in> set aka"
    then show "tag_values tag = None" using Cons.prems [of tag aka] by simp
  qed
  ultimately show ?case using entry by auto
qed

lemma aliases_distinct: "distinct (concat (map snd aliases))"
  by code_simp

section \<open>Claims about the schema mapper\<close>

text \<open>
  C1, as stated: for the schema \<open>["Storage Capacity (MWh)"]\<close> and the tags
  \<open>{"bess_mwh": "50"}\<close> the row is \<open>["50"]\<close>. The code returns \<open>[""]\<close>: the derived key
  \<open>storage_capacity_mwh\<close> is the canonical tag of an alias entry, not one of its alternate
  keys, and the table is searched by alternate key.
\<close>

theorem alias_example_counterexample:
  "build_row [py ''Storage Capacity (MWh)''] [py ''bess_mwh'' \<mapsto> py ''50''] = [py ''''] \<and>
   build_row [py ''Storage Capacity (MWh)''] [py ''bess_mwh'' \<mapsto> py ''50''] \<noteq> [py ''50'']"
  by code_simp

text \<open>
  C1, amended. When the derived key of a column is not a key of the tags, alias resolution
  takes the alias entry whose list of alternate keys contains the derived key and yields
  the value of that entry's canonical tag, if the tags have it, and the empty string when
  no entry gives a value.
\<close>

theorem alias_resolution:
  assumes "i < length columns" and "tag_values (column_key (columns ! i)) = None"
  shows "(\<forall>tag aka v. (tag, aka) \<in> set aliases \<and> column_key (columns ! i) \<in> set aka \<and>
            tag_values tag = Some v \<longrightarrow> build_row columns tag_values ! i = v) \<and>
         ((\<forall>tag aka. (tag, aka) \<in> set aliases \<and> column_key (columns ! i) \<in> set aka \<longrightarrow>
            tag_values tag = None) \<longrightarrow> build_row columns tag_values ! i = [])"
proof -
  let ?key = "column_key (columns ! i)"
  have cell: "build_row columns tag_values ! i = alias_loop aliases ?key tag_values"
    using assms by (simp add: build_row_map)
  have "\<forall>tag aka v. (tag, aka) \<in> set aliases \<and> ?key \<in> set aka \<and> tag_values tag = Some v
      \<longrightarrow> alias_loop aliases ?key tag_values = v"
    using alias_loop_found [OF aliases_distinct] by blast
  moreover have "(\<forall>tag aka. (tag, aka) \<in> set aliases \<and> ?key \<in> set aka \<longrightarrow>
      tag_values tag = None) \<longrightarrow> alias_loop aliases ?key tag_values = []"
    by (auto intro: alias_loop_not_found)
  ultimately show ?thesis using cell by simp
qed

theorem alias_resolution_witness:
  "(0::nat) < length [py ''BESS MWh''] \<and>
   [py ''storage_capacity_mwh'' \<mapsto> py ''50''] (column_key ([py ''BESS MWh''] ! 0)) = None \<and>
   (py ''storage_capacity_mwh'', [py ''bess_mwh'', py ''storage_mwh'']) \<in> set aliases \<and>
   column_key ([py ''BESS MWh''] ! 0) \<in> set [py ''bess_mwh'', py ''storage_mwh''] \<and>
   [py ''storage_capacity_mwh'' \<mapsto> py ''50''] (py ''storage_capacity_mwh'') = Some (py ''50'') \<and>
   build_row [py ''BESS MWh''] [py ''storage_capacity_mwh'' \<mapsto> py ''50''] ! 0 = py ''50''"
proof -
  let ?tv = "[py ''storage_capacity_mwh'' \<mapsto> py ''50'']"
  have k: "column_key (py ''BESS MWh'') = py ''bess_mwh''" by (simp add: column_key_eval)
  have ne: "py ''bess_mwh'' \<noteq> py ''storage_capacity_mwh''" by (simp add: py_def)
  have h1: "(0::nat) < length [py ''BESS MWh'']" by simp
  have h2: "?tv (column_key ([py ''BESS MWh''] ! 0)) = None" using k ne by simp
  have h3: "(py ''storage_capacity_mwh'', [py ''bess_mwh'', py ''storage_mwh'']) \<in> set aliases"
    by (simp add: aliases_def)
  have h4: "column_key ([py ''BESS MWh''] ! 0) \<in> set [py ''bess_mwh'', py ''storage_mwh'']"
    using k by simp
  have h5: "?tv (py ''storage_capacity_mwh'') = Some (py ''50'')" by simp
  from alias_resolution [where columns = "[py ''BESS MWh'']" and i = 0 and tag_values = ?tv,
      OF h1 h2] h3 h4 h5
  have "build_row [py ''BESS MWh''] ?tv ! 0 = py ''50''" by blast
  then show ?thesis using h1 h2 h3 h4 h5 by blast
qed

text \<open>
  C6. Schema row width: for a schema of length \<open>n\<close> and any tags, the empty mapping
  included, \<open>build_row\<close> returns a row of length \<open>n\<close>, and the value at each position is the
  one of the column at that position.
\<close>

theorem build_row_width:
  "length (build_row columns tag_values) = length columns \<and>
   (\<forall>i < length columns.
      build_row columns tag_values ! i = build_row [columns ! i] tag_values ! 0)"
  by (simp add: build_row_map)

theorem build_row_width_witness:
  "(1::nat) < length [py ''Project Name'', py ''Capacity (MW)''] \<and>
   length (build_row [py ''Project Name'', py ''Capacity (MW)'']
       [py ''project_name'' \<mapsto> py ''Lakhwar'', py ''capacity_mw'' \<mapsto> py ''100''])
     = length [py ''Project Name'', py ''Capacity (MW)''] \<and>
   build_row [py ''Project Name'', py ''Capacity (MW)'']
       [py ''project_name'' \<mapsto> py ''Lakhwar'', py ''capacity_mw'' \<mapsto> py ''100''] ! 1
     = build_row [[py ''Project Name'', py ''Capacity (MW)''] ! 1]
         [py ''project_name'' \<mapsto> py ''Lakhwar'', py ''capacity_mw'' \<mapsto> py ''100''] ! 0 \<and>
   build_row [py ''Project Name'', py ''Capacity (MW)'']
       [py ''project_name'' \<mapsto> py ''Lakhwar'', py ''capacity_mw'' \<mapsto> py ''100'']
     = [py ''Lakhwar'', py ''100''] \<and>
   build_row [py ''Unknown Column''] Map.empty = [py '''']"
proof -
  let ?cols = "[py ''Project Name'', py ''Capacity (MW)'']"
  let ?tv = "[py ''project_name'' \<mapsto> py ''Lakhwar'', py ''capacity_mw'' \<mapsto> py ''100'']"
  have h: "(1::nat) < length ?cols" by simp
  have r: "build_row ?cols ?tv = [py ''Lakhwar'', py ''100'']" by code_simp
  have e: "build_row [py ''Unknown Column''] Map.empty = [py '''']" by code_simp
  from build_row_width [of ?cols ?tv] h
  have "length (build_row ?cols ?tv) = length ?cols \<and>
      build_row ?cols ?tv ! 1 = build_row [?cols ! 1] ?tv ! 0" by blast
  then show ?thesis using h r e by blast
qed

text \<open>
  C8. Alias fallback order: when the derived key of a column is a key of the tags, the row
  holds the value under that key, whatever the alias table would give.
\<close>

theorem direct_key_first:
  assumes "i < length columns" and "tag_values (column_key (columns ! i)) = Some v"
  shows "build_row columns tag_values ! i = v"
  using assms by (simp add: build_row_map)

theorem direct_key_first_witness:
  "(0::nat) < length [py ''Capacity''] \<and>
   [py ''capacity'' \<mapsto> py ''5'', py ''project_capacity_mw'' \<mapsto> py ''100'']
     (column_key ([py ''Capacity''] ! 0)) = Some (py ''5'') \<and>
   alias_loop aliases (column_key ([py ''Capacity''] ! 0))
     [py ''capacity'' \<mapsto> py ''5'', py ''project_capacity_mw'' \<mapsto> py ''100''] = py ''100'' \<and>
   build_row [py ''Capacity'']
     [py ''capacity'' \<mapsto> py ''5'', py ''project_capacity_mw'' \<mapsto> py ''100''] ! 0 = py ''5''"
proof -
  let ?tv = "[py ''capacity'' \<mapsto> py ''5'', py ''project_capacity_mw'' \<mapsto> py ''100'']"
  have k: "column_key (py ''Capacity'') = py ''capacity''" by (simp add: column_key_eval)
  have ne: "py ''capacity'' \<noteq> py ''project_capacity_mw''" by (simp add: py_def)
  have h1: "(0::nat) < length [py ''Capacity'']" by simp
  have h2: "?tv (column_key ([py ''Capacity''] ! 0)) = Some (py ''5'')" using k ne by simp
  have a: "alias_loop aliases (py ''capacity'') ?tv = py ''100''" by code_simp
  from direct_key_first [where columns = "[py ''Capacity'']" and i = 0 and tag_values = ?tv,
      OF h1 h2] show ?thesis using h1 h2 a k by simp
qed

section \<open>Facts about the sink and the driver\<close>
















section \<open>Claims about the sink and the schema source\<close>




text \<open>
  C10. When the schema source parses as well-formed JSON, the object of section 6 of the
  specification, but lacks the key \<open>columns\<close> or the key \<open>detected_master_sheet\<close>,
  \<open>load_columns\<close> does not fail: it returns, with the empty list for the missing columns
  and the sheet name \<open>Master\<close> for the missing sheet name.
\<close>

theorem load_columns_defaults:
  "\<exists>sheet columns. load_columns (Inr (JDict items)) = Inr (sheet, columns) \<and>
     (map_of items (py ''columns'') = None \<longrightarrow> columns = JList []) \<and>
     (map_of items (py ''detected_master_sheet'') = None \<longrightarrow> sheet = JStr (py ''Master''))"
  by (simp add: dict_get_def)

theorem load_columns_defaults_witness:
  "map_of [(py ''columns'', JList [JStr (py ''Project Name'')])] (py ''detected_master_sheet'')
     = None \<and>
   load_columns (Inr (JDict [(py ''columns'', JList [JStr (py ''Project Name'')])]))
     = Inr (JStr (py ''Master''), JList [JStr (py ''Project Name'')]) \<and>
   load_columns (Inr (JDict [])) = Inr (JStr (py ''Master''), JList [])"
proof -
  have ne: "py ''detected_master_sheet'' \<noteq> py ''columns''" by (simp add: py_def)
  have h: "map_of [(py ''columns'', JList [JStr (py ''Project Name'')])]
      (py ''detected_master_sheet'') = None" using ne by simp
  from load_columns_defaults [of "[(py ''columns'', JList [JStr (py ''Project Name'')])]"] h
  have "\<exists>columns. load_columns (Inr (JDict [(py ''columns'', JList [JStr (py ''Project Name'')])]))
      = Inr (JStr (py ''Master''), columns)" by auto
  moreover from load_columns_defaults [of "[]"]
  have "load_columns (Inr (JDict [])) = Inr (JStr (py ''Master''), JList [])" by simp
  ultimately show ?thesis using h by (auto simp: dict_get_def)
qed

end
